theory Spec2Isabelle
  imports Main
begin

section \<open>Python values and string primitives used by the OUP spider\<close>

text \<open>
  Strings are byte strings (\<open>string\<close>), as the spider casts every path with \<open>str(...)\<close>.
  Each exception the modelled code can raise is a value of \<open>py_error\<close>; a computation
  that may raise returns \<open>py_error + 'a\<close>, with \<open>Inl\<close> for the raised exception.
\<close>

datatype py_error =
  AttributeError | IndexError | TypeError | ValueError | IOError | OSError | BadZipfile | KeyError

text \<open>\<open>s.endswith(suf)\<close> and \<open>s.startswith(pre)\<close>.\<close>

definition endswith :: "string \<Rightarrow> string \<Rightarrow> bool" where
  "endswith s suf \<longleftrightarrow> length suf \<le> length s \<and> drop (length s - length suf) s = suf"

definition startswith :: "string \<Rightarrow> string \<Rightarrow> bool" where
  "startswith s pre \<longleftrightarrow> take (length pre) s = pre"

text \<open>\<open>sub in s\<close> on strings: \<open>sub\<close> occurs somewhere in \<open>s\<close>.\<close>

fun contains :: "string \<Rightarrow> string \<Rightarrow> bool" where
  "contains [] sub = (sub = [])"
| "contains (c # cs) sub = (startswith (c # cs) sub \<or> contains cs sub)"

text \<open>\<open>s.find(sub)\<close>: the index of the first occurrence, or \<open>-1\<close>.\<close>

fun find_from :: "string \<Rightarrow> string \<Rightarrow> nat \<Rightarrow> int" where
  "find_from [] sub i = (if sub = [] then int i else - 1)"
| "find_from (c # cs) sub i = (if startswith (c # cs) sub then int i else find_from cs sub (Suc i))"

definition py_find :: "string \<Rightarrow> string \<Rightarrow> int" where
  "py_find s sub = find_from s sub 0"

text \<open>\<open>s.rfind(c)\<close> for a one-character needle: the index of the last occurrence, or \<open>-1\<close>.\<close>

definition rfind_char :: "string \<Rightarrow> char \<Rightarrow> int" where
  "rfind_char s c =
     (if c \<in> set s then int (length s) - 1 - int (length (takeWhile (\<lambda>x. x \<noteq> c) (rev s))) else - 1)"

text \<open>\<open>s[0:k]\<close>: a negative bound counts from the end, and every bound is clamped.\<close>

definition py_slice_to :: "string \<Rightarrow> int \<Rightarrow> string" where
  "py_slice_to s k = (if k < 0 then take (nat (int (length s) + k)) s else take (nat k) s)"

subsection \<open>\<open>os.path\<close> (posixpath)\<close>

text \<open>One step of \<open>os.path.join(a, *p)\<close>, and the join of a path with a list of components.\<close>

definition join_step :: "string \<Rightarrow> string \<Rightarrow> string" where
  "join_step path b =
     (if startswith b ''/'' then b
      else if path = [] \<or> endswith path ''/'' then path @ b
      else path @ ''/'' @ b)"

definition os_path_join :: "string \<Rightarrow> string list \<Rightarrow> string" where
  "os_path_join a p = foldl join_step a p"

text \<open>
  \<open>os.path.splitext\<close>: the extension starts at the last dot, provided that dot lies after
  the last slash and some character between the two is not a dot.
\<close>

definition os_path_splitext :: "string \<Rightarrow> string \<times> string" where
  "os_path_splitext p =
     (let sepIndex = rfind_char p (CHR ''/'');
          dotIndex = rfind_char p (CHR ''.'')
      in if dotIndex > sepIndex \<and>
            list_ex (\<lambda>c. c \<noteq> CHR ''.'') (drop (nat (sepIndex + 1)) (take (nat dotIndex) p))
         then (take (nat dotIndex) p, drop (nat dotIndex) p)
         else (p, []))"

definition os_path_basename :: "string \<Rightarrow> string" where
  "os_path_basename p = drop (nat (rfind_char p (CHR ''/'') + 1)) p"

definition rstrip_slash :: "string \<Rightarrow> string" where
  "rstrip_slash s = rev (dropWhile (\<lambda>c. c = CHR ''/'') (rev s))"

definition os_path_dirname :: "string \<Rightarrow> string" where
  "os_path_dirname p =
     (let head = take (nat (rfind_char p (CHR ''/'') + 1)) p
      in if head \<noteq> [] \<and> head \<noteq> replicate (length head) (CHR ''/'') then rstrip_slash head else head)"

text \<open>
  \<open>s.split('/')\<close> and \<open>'/'.join(comps)\<close>, and \<open>os.path.normpath\<close>: empty and \<open>.\<close>
  components are dropped, a \<open>..\<close> cancels the component before it, one or two leading
  slashes are kept, and the empty result is \<open>.\<close>.
\<close>

fun split_char :: "char \<Rightarrow> string \<Rightarrow> string list" where
  "split_char sep [] = [[]]"
| "split_char sep (c # cs) =
     (if c = sep then [] # split_char sep cs
      else (case split_char sep cs of [] \<Rightarrow> [[c]] | w # ws \<Rightarrow> (c # w) # ws))"

fun join_slash :: "string list \<Rightarrow> string" where
  "join_slash [] = []"
| "join_slash [x] = x"
| "join_slash (x # y # ys) = x @ ''/'' @ join_slash (y # ys)"

fun normpath_loop :: "nat \<Rightarrow> string list \<Rightarrow> string list \<Rightarrow> string list" where
  "normpath_loop initial_slashes new_comps [] = new_comps"
| "normpath_loop initial_slashes new_comps (part # comps) =
     (if part = [] \<or> part = ''.'' then normpath_loop initial_slashes new_comps comps
      else if part \<noteq> ''..'' \<or> (initial_slashes = 0 \<and> new_comps = [])
               \<or> (new_comps \<noteq> [] \<and> last new_comps = ''..'')
           then normpath_loop initial_slashes (new_comps @ [part]) comps
      else if new_comps \<noteq> [] then normpath_loop initial_slashes (butlast new_comps) comps
      else normpath_loop initial_slashes new_comps comps)"

definition os_path_normpath :: "string \<Rightarrow> string" where
  "os_path_normpath path =
     (if path = [] then ''.''
      else
        (let initial_slashes =
               (if startswith path ''/'' then
                  (if startswith path ''//'' \<and> \<not> startswith path ''///'' then 2 else 1)
                else 0);
             comps = normpath_loop initial_slashes [] (split_char (CHR ''/'') path);
             path = replicate initial_slashes (CHR ''/'') @ join_slash comps
         in if path = [] then ''.'' else path))"

section \<open>Files on disk and bundle archives\<close>

text \<open>
  The disk is a store from path strings to what is there: plain bytes, a zip archive,
  given by its entries (member name, data) in the order of \<open>namelist()\<close>, or a
  directory. \<open>os.path.exists\<close> looks the path string up as it is.
  \<open>ZipFile(filename)\<close> raises when the path is missing, is a directory or is not an
  archive.
\<close>

datatype disk_file = Blob string | Zip "(string \<times> string) list" | Directory

type_synonym filesystem = "string \<rightharpoonup> disk_file"

definition ZipFile :: "filesystem \<Rightarrow> string \<Rightarrow> py_error + (string \<times> string) list" where
  "ZipFile fs filename =
     (case fs filename of
        None \<Rightarrow> Inl IOError
      | Some (Blob _) \<Rightarrow> Inl BadZipfile
      | Some (Zip z) \<Rightarrow> Inr z
      | Some Directory \<Rightarrow> Inl IOError)"

definition namelist :: "(string \<times> string) list \<Rightarrow> string list" where
  "namelist z = map fst z"

definition os_path_exists :: "filesystem \<Rightarrow> string \<Rightarrow> bool" where
  "os_path_exists fs p \<longleftrightarrow> fs p \<noteq> None"

text \<open>
  \<open>z.extract(name, target_folder)\<close>, as \<open>ZipFile._extract_member\<close> does it. The member
  is the last entry of that name (\<open>getinfo\<close>). Its name is sanitised: the empty, \<open>.\<close> and
  \<open>..\<close> components are dropped, and with them a leading slash (\<open>arcname\<close>). The path
  written is the normalised join of the target folder and the sanitised name
  (\<open>extract_path\<close>), which is not always the path \<open>os.path.join(target_folder, name)\<close>
  that \<open>unzip_files\<close> tests. The parent directories of that path are created; this
  raises \<open>OSError\<close> when one of them is a regular file. A member whose name ends with a
  slash is created as a directory; any other member is written as a file, replacing a
  file that is there, and this raises when the path is a directory.
\<close>

definition arcname :: "string \<Rightarrow> string" where
  "arcname name =
     join_slash (filter (\<lambda>x. x \<noteq> [] \<and> x \<noteq> ''.'' \<and> x \<noteq> ''..'') (split_char (CHR ''/'') name))"

definition extract_path :: "string \<Rightarrow> string \<Rightarrow> string" where
  "extract_path target_folder name = os_path_normpath (os_path_join target_folder [arcname name])"

definition parent_dirs :: "string \<Rightarrow> string list" where
  "parent_dirs p =
     filter (\<lambda>d. d \<noteq> replicate (length d) (CHR ''/''))
       (map (\<lambda>i. take i p) (filter (\<lambda>i. p ! i = CHR ''/'') [1..<length p]))"

definition is_regular :: "filesystem \<Rightarrow> string \<Rightarrow> bool" where
  "is_regular fs p = (case fs p of Some (Blob _) \<Rightarrow> True | Some (Zip _) \<Rightarrow> True | _ \<Rightarrow> False)"

fun makedirs :: "string list \<Rightarrow> filesystem \<Rightarrow> filesystem" where
  "makedirs [] fs = fs"
| "makedirs (d # ds) fs = makedirs ds (fs(d \<mapsto> Directory))"

definition zip_extract :: "(string \<times> string) list \<Rightarrow> string \<Rightarrow> string \<Rightarrow> filesystem \<Rightarrow> py_error + filesystem" where
  "zip_extract z name target_folder fs =
     (case map_of (rev z) name of
        None \<Rightarrow> Inl KeyError
      | Some data \<Rightarrow>
          (let targetpath = extract_path target_folder name;
               upperdirs = parent_dirs targetpath
           in if list_ex (is_regular fs) upperdirs then Inl OSError
              else if name = [] then Inl IndexError
              else if last name = CHR ''/'' then
                (if is_regular fs targetpath then Inl OSError
                 else Inr ((makedirs upperdirs fs)(targetpath \<mapsto> Directory)))
              else if fs targetpath = Some Directory then Inl OSError
              else Inr ((makedirs upperdirs fs)(targetpath \<mapsto> Blob data))))"

text \<open>
  The loop of \<open>unzip_files\<close> over the member names, with the disk and the list
  \<open>xml_files\<close> built so far, and \<open>unzip_files\<close> itself (source lines 36-46).
\<close>

fun unzip_loop ::
  "(string \<times> string) list \<Rightarrow> string \<Rightarrow> string \<Rightarrow> string list \<Rightarrow> filesystem \<Rightarrow> string list
    \<Rightarrow> py_error + (filesystem \<times> string list)" where
  "unzip_loop z target_folder ty [] fs xml_files = Inr (fs, xml_files)"
| "unzip_loop z target_folder ty (filename # rest) fs xml_files =
     (if endswith filename ty then
        (let absolute_path = os_path_join target_folder [filename] in
         if \<not> os_path_exists fs absolute_path then
           (case zip_extract z filename target_folder fs of
              Inl e \<Rightarrow> Inl e
            | Inr fs' \<Rightarrow> unzip_loop z target_folder ty rest fs' (xml_files @ [absolute_path]))
         else unzip_loop z target_folder ty rest fs (xml_files @ [absolute_path]))
      else unzip_loop z target_folder ty rest fs xml_files)"

definition unzip_files :: "string \<Rightarrow> string \<Rightarrow> string \<Rightarrow> filesystem \<Rightarrow> py_error + (filesystem \<times> string list)" where
  "unzip_files filename target_folder ty fs =
     (case ZipFile fs filename of
        Inl e \<Rightarrow> Inl e
      | Inr z \<Rightarrow> unzip_loop z target_folder ty (namelist z) fs [])"

section \<open>Handling a downloaded bundle: \<open>handle_package_ftp\<close>\<close>

lemma splitext_append: "os_path_splitext p = (r, e) \<Longrightarrow> r @ e = p"
  by (auto simp: os_path_splitext_def Let_def split: if_splits)

text \<open>
  The loop of source lines 183-187: \<open>os.path.splitext\<close> is applied again and again,
  until the extension it splits off is empty.
\<close>

function strip_extensions :: "string \<Rightarrow> string" where
  "strip_extensions zip_target_folder =
     (case os_path_splitext zip_target_folder of
        (root, dummy) \<Rightarrow> if dummy = [] then root else strip_extensions root)"
  by pat_completeness auto
termination
proof (relation "measure length")
  show "wf (measure length)" by simp
next
  fix zip_target_folder :: string and x1 x2
  assume a: "(x1, x2) = os_path_splitext zip_target_folder" "x2 \<noteq> []"
  from a(1) have "x1 @ x2 = zip_target_folder" by (simp add: splitext_append[OF sym])
  with a(2) show "(x1, zip_target_folder) \<in> measure length" by auto
qed

declare strip_extensions.simps [simp del]

text \<open>
  The request emitted for one XML file (source lines 199-209): its URL and the four
  entries of its \<open>meta\<close> dictionary. \<open>split_first s\<close> is \<open>s.split('.')[0]\<close>.
\<close>

record extraction_task =
  task_url :: string
  package_path :: string
  xml_url :: string
  pdf_url :: string
  pdfa_url :: string

definition split_first :: "string \<Rightarrow> string" where
  "split_first s = takeWhile (\<lambda>c. c \<noteq> CHR ''.'') s"

definition xml_task :: "string \<Rightarrow> string \<Rightarrow> extraction_task" where
  "xml_task zip_filepath xml_file =
     (let dir_path = os_path_dirname xml_file;
          filename = split_first (os_path_basename xml_file)
      in \<lparr> task_url = ''file://'' @ xml_file,
           package_path = zip_filepath,
           xml_url = xml_file,
           pdf_url = os_path_join dir_path [''pdf'', filename @ ''.'' @ ''pdf''],
           pdfa_url = os_path_join dir_path [''archival'', filename @ ''.'' @ ''pdf''] \<rparr>)"

text \<open>
  The three conditional steps of \<open>handle_package_ftp\<close> (source lines 189-191, 192-195
  and 196-209). The first two pass on the target folder they may have changed.
\<close>

definition pdf_step :: "string \<Rightarrow> string \<Rightarrow> filesystem \<Rightarrow> py_error + (string \<times> filesystem)" where
  "pdf_step zip_filepath zip_target_folder fs =
     (if contains zip_filepath ''.pdf'' then
        (let zip_target_folder = os_path_join zip_target_folder [''pdf''] in
         case unzip_files zip_filepath zip_target_folder ''.pdf'' fs of
           Inl e \<Rightarrow> Inl e
         | Inr (fs', _) \<Rightarrow> Inr (zip_target_folder, fs'))
      else Inr (zip_target_folder, fs))"

definition archival_step :: "string \<Rightarrow> string \<Rightarrow> filesystem \<Rightarrow> py_error + (string \<times> filesystem)" where
  "archival_step zip_filepath zip_target_folder fs =
     (if endswith zip_target_folder ''_archival'' then
        (let zip_target_folder = py_slice_to zip_target_folder (py_find zip_target_folder ''_archival'');
             zip_target_folder = os_path_join zip_target_folder [''archival''] in
         case unzip_files zip_filepath zip_target_folder ''.pdf'' fs of
           Inl e \<Rightarrow> Inl e
         | Inr (fs', _) \<Rightarrow> Inr (zip_target_folder, fs'))
      else Inr (zip_target_folder, fs))"

definition xml_step :: "string \<Rightarrow> string \<Rightarrow> filesystem \<Rightarrow> py_error + (filesystem \<times> extraction_task list)" where
  "xml_step zip_filepath zip_target_folder fs =
     (if contains zip_filepath ''.xml'' then
        (case unzip_files zip_filepath zip_target_folder ''.xml'' fs of
           Inl e \<Rightarrow> Inl e
         | Inr (fs', xml_files) \<Rightarrow> Inr (fs', map (xml_task zip_filepath) xml_files))
      else Inr (fs, []))"

text \<open>
  \<open>handle_package_ftp\<close>, run to the end of its generator: the bundle path is the
  response body; the result is the disk after the extractions and the requests yielded.
\<close>

definition handle_package_ftp :: "string \<Rightarrow> filesystem \<Rightarrow> py_error + (filesystem \<times> extraction_task list)" where
  "handle_package_ftp zip_filepath fs =
     (case pdf_step zip_filepath (strip_extensions zip_filepath) fs of
        Inl e \<Rightarrow> Inl e
      | Inr (zip_target_folder, fs1) \<Rightarrow>
          (case archival_step zip_filepath zip_target_folder fs1 of
             Inl e \<Rightarrow> Inl e
           | Inr (zip_target_folder, fs2) \<Rightarrow> xml_step zip_filepath zip_target_folder fs2))"

section \<open>Discovering bundles: \<open>start_requests\<close>\<close>

text \<open>
  The spider's attributes read by \<open>start_requests\<close>, and the collaborators it calls
  that are not part of the modelled file, taken as parameters: the result of
  \<open>ftp_connection_info\<close> (a host and a parameter dictionary), the FTP host's
  \<open>curdir\<close> and \<open>listdir\<close>, the list of new files reported by \<open>ftp_list_files\<close>, and
  the clock read by \<open>generate_download_name\<close> when the loop reaches its k-th folder.
\<close>

record spider =
  self_package_path :: "string option"
  self_ftp_folder :: string
  self_ftp_host :: "string option"
  self_ftp_netrc :: "string option"
  self_target_folder :: string

record ftp_remote =
  ftp_connection_info :: "string option \<Rightarrow> string option \<Rightarrow> string \<times> (string \<rightharpoonup> string)"
  curdir :: string
  listdir :: "string \<times> string \<times> string \<Rightarrow> string \<Rightarrow> string list"
  ftp_list_files :: "string \<Rightarrow> string \<Rightarrow> string \<times> string \<times> string \<Rightarrow> string list"
  generate_download_name :: "nat \<Rightarrow> string"

datatype callback = handle_package_file_callback | handle_package_ftp_callback

record request =
  request_url :: string
  request_meta :: "string \<rightharpoonup> string"
  request_callback :: callback

text \<open>\<open>ftp_list_folders\<close> (source lines 49-57): the listed names that do not start with a dot.\<close>

fun visible_folders :: "string list \<Rightarrow> string list \<Rightarrow> string list" where
  "visible_folders [] all_folders = all_folders"
| "visible_folders (folder # folders) all_folders =
     (if \<not> startswith folder ''.'' then visible_folders folders (all_folders @ [folder])
      else visible_folders folders all_folders)"

definition ftp_list_folders :: "ftp_remote \<Rightarrow> string \<Rightarrow> string \<Rightarrow> string \<Rightarrow> string \<Rightarrow> string list" where
  "ftp_list_folders remote server_folder server user password =
     visible_folders (listdir remote (server, user, password) (curdir remote @ ''/'' @ server_folder)) []"

text \<open>A dictionary subscript \<open>d[k]\<close> and the truth value of an optional string.\<close>

definition dict_item :: "(string \<rightharpoonup> string) \<Rightarrow> string \<Rightarrow> py_error + string" where
  "dict_item d k = (case d k of None \<Rightarrow> Inl KeyError | Some v \<Rightarrow> Inr v)"

definition truthy :: "string option \<Rightarrow> bool" where
  "truthy v = (case v of None \<Rightarrow> False | Some s \<Rightarrow> s \<noteq> [])"

text \<open>
  The loop over the new files of one folder (source lines 164-177). The dictionary
  \<open>ftp_params\<close> is updated in place and copied into each request, so the loop also
  returns it.
\<close>

fun files_loop ::
  "spider \<Rightarrow> string \<Rightarrow> (string \<rightharpoonup> string) \<Rightarrow> string \<Rightarrow> string list \<Rightarrow> request list \<times> (string \<rightharpoonup> string)" where
  "files_loop self host ftp_params new_download_name [] = ([], ftp_params)"
| "files_loop self host ftp_params new_download_name (remote_file # new_files) =
     (if contains remote_file ''.zip'' then
        (let ftp_params = ftp_params(''ftp_local_filename'' \<mapsto>
               os_path_join (self_target_folder self) [new_download_name @ ''_'' @ os_path_basename remote_file]);
             remote_url = ''ftp://'' @ host @ ''/'' @ remote_file
         in case files_loop self host ftp_params new_download_name new_files of
              (requests, ftp_params') \<Rightarrow>
                (\<lparr> request_url = remote_url, request_meta = ftp_params,
                    request_callback = handle_package_ftp_callback \<rparr> # requests, ftp_params'))
      else files_loop self host ftp_params new_download_name new_files)"

text \<open>The loop over the folders (source lines 150-163), counting the folders visited.\<close>

fun folders_loop ::
  "spider \<Rightarrow> ftp_remote \<Rightarrow> string \<Rightarrow> (string \<rightharpoonup> string) \<Rightarrow> string \<Rightarrow> string \<Rightarrow> nat \<Rightarrow> string list \<Rightarrow> request list" where
  "folders_loop self remote host ftp_params user password k [] = []"
| "folders_loop self remote host ftp_params user password k (folder # folders) =
     (let new_download_name = generate_download_name remote k;
          new_files = ftp_list_files remote (os_path_join (self_ftp_folder self) [folder]) (self_target_folder self)
                        (host, user, password)
      in case files_loop self host ftp_params new_download_name new_files of
           (requests, ftp_params) \<Rightarrow>
             requests @ folders_loop self remote host ftp_params user password (Suc k) folders)"

text \<open>
  \<open>start_requests\<close> (source lines 144-177), run to the end of its generator. The
  dictionary subscripts of lines 153-154 are evaluated before the first folder is read.
\<close>

definition remote_discovery :: "spider \<Rightarrow> ftp_remote \<Rightarrow> py_error + request list" where
  "remote_discovery self remote =
     (case ftp_connection_info remote (self_ftp_host self) (self_ftp_netrc self) of
        (host, ftp_params) \<Rightarrow>
          (case dict_item ftp_params ''ftp_user'' of
             Inl e \<Rightarrow> Inl e
           | Inr user \<Rightarrow>
               (case dict_item ftp_params ''ftp_password'' of
                  Inl e \<Rightarrow> Inl e
                | Inr password \<Rightarrow>
                    Inr (folders_loop self remote host ftp_params user password 0
                           (ftp_list_folders remote (self_ftp_folder self) host user password)))))"

definition start_requests :: "spider \<Rightarrow> ftp_remote \<Rightarrow> py_error + request list" where
  "start_requests self remote =
     (case self_package_path self of
        None \<Rightarrow> remote_discovery self remote
      | Some p \<Rightarrow>
          if p \<noteq> [] then
            Inr [\<lparr> request_url = p, request_meta = Map.empty,
                   request_callback = handle_package_file_callback \<rparr>]
          else remote_discovery self remote)"

section \<open>Extracting a record: \<open>get_arxiv\<close> and \<open>parse_node\<close>\<close>

text \<open>
  Values of the Python types that \<open>article_type\<close> can take: \<open>None\<close>, a string, or
  the list of strings that \<open>SelectorList.extract()\<close> returns.
\<close>

datatype pyval = PyNone | PyStr string | PyList "string list"

text \<open>
  What \<open>parse_node\<close> reads from the article document: the \<open>article-type\<close> attribute of
  the node (absent or a string), the \<open>article-id\<close> elements in document order, each
  with its \<open>pub-id-type\<close> attribute and its text nodes, and the date string computed by
  \<open>_get_published_date\<close>, a method of the absent JATS extractor, taken as given.
\<close>

record article_id =
  pub_id_type :: "string option"
  text_nodes :: "string list"

record article_document =
  article_type_attr :: "string option"
  article_ids :: "article_id list"
  get_published_date :: string

text \<open>
  \<open>node.xpath("//article-id[@pub-id-type='arxiv']/text()")\<close>, and the loop of
  \<open>get_arxiv\<close> (source lines 65-71).
\<close>

definition xpath_arxiv_text :: "article_document \<Rightarrow> string list" where
  "xpath_arxiv_text node =
     concat (map text_nodes (filter (\<lambda>a. pub_id_type a = Some ''arxiv'') (article_ids node)))"

fun get_arxiv_loop :: "string list \<Rightarrow> string option" where
  "get_arxiv_loop [] = None"
| "get_arxiv_loop (ar # arxivs_raw) = (if ar \<noteq> [] then Some ar else get_arxiv_loop arxivs_raw)"

definition get_arxiv :: "article_document \<Rightarrow> string option" where
  "get_arxiv node = get_arxiv_loop (xpath_arxiv_text node)"

text \<open>
  \<open>node.xpath('@article-type').extract()\<close>: the list of the selected attribute values,
  empty when the attribute is absent.
\<close>

definition xpath_article_type_extract :: "article_document \<Rightarrow> pyval" where
  "xpath_article_type_extract node =
     PyList (case article_type_attr node of None \<Rightarrow> [] | Some v \<Rightarrow> [v])"

text \<open>
  \<open>x.lower()\<close>: a method of strings only; on a list or on \<open>None\<close> the attribute lookup
  raises \<open>AttributeError\<close>.
\<close>

definition lower_char :: "char \<Rightarrow> char" where
  "lower_char c = (if 65 \<le> (of_char c :: nat) \<and> (of_char c :: nat) \<le> 90 then char_of (of_char c + 32 :: nat) else c)"

definition py_lower :: "pyval \<Rightarrow> py_error + pyval" where
  "py_lower x = (case x of PyStr s \<Rightarrow> Inr (PyStr (map lower_char s)) | _ \<Rightarrow> Inl AttributeError)"

text \<open>\<open>x[0]\<close>: the first element of a list, the first character of a string.\<close>

definition py_first :: "pyval \<Rightarrow> py_error + string" where
  "py_first x =
     (case x of
        PyNone \<Rightarrow> Inl TypeError
      | PyStr s \<Rightarrow> (case s of [] \<Rightarrow> Inl IndexError | c # _ \<Rightarrow> Inr [c])
      | PyList xs \<Rightarrow> (case xs of [] \<Rightarrow> Inl IndexError | v # _ \<Rightarrow> Inr v))"

definition allowed_article_types :: "string list" where
  "allowed_article_types =
     [''research-article'', ''corrected-article'', ''original-article'', ''introduction'',
      ''letter'', ''correction'', ''addendum'', ''review-article'', ''rapid-communications'']"

definition article_type_mapping :: "(string \<times> string) list" where
  "article_type_mapping =
     [(''research-article'', ''article''), (''corrected-article'', ''article''),
      (''original-article'', ''article''), (''correction'', ''corrigendum''),
      (''addendum'', ''addendum''), (''introduction'', ''other''), (''letter'', ''other''),
      (''review-article'', ''other''), (''rapid-communications'', ''other'')]"

definition default_article_type :: string where
  "default_article_type = ''unknown''"

text \<open>
  The gate of source line 216, \<open>article_type is None or article_type[0] not in
  self.allowed_article_types\<close>: true when the document is to be filtered out.
\<close>

definition article_type_filtered :: "pyval \<Rightarrow> py_error + bool" where
  "article_type_filtered article_type =
     (if article_type = PyNone then Inr True
      else case py_first article_type of
             Inl e \<Rightarrow> Inl e
           | Inr t \<Rightarrow> Inr (t \<notin> set allowed_article_types))"

text \<open>
  \<open>self.article_type_mapping.get(article_type, self.default_article_type)\<close>: a list is
  unhashable and cannot be looked up.
\<close>

definition mapping_get :: "pyval \<Rightarrow> py_error + string" where
  "mapping_get article_type =
     (case article_type of
        PyList _ \<Rightarrow> Inl TypeError
      | PyNone \<Rightarrow> Inr default_article_type
      | PyStr s \<Rightarrow> Inr (case map_of article_type_mapping s of None \<Rightarrow> default_article_type | Some d \<Rightarrow> d))"

text \<open>
  \<open>int(s)\<close> on a string: surrounding whitespace is ignored, one sign is allowed, and
  the rest must be a non-empty run of decimal digits; anything else raises \<open>ValueError\<close>.
\<close>

definition is_space :: "char \<Rightarrow> bool" where
  "is_space c \<longleftrightarrow> c \<in> set [CHR '' '', CHR 0x09, CHR 0x0A, CHR 0x0B, CHR 0x0C, CHR 0x0D]"

definition is_digit :: "char \<Rightarrow> bool" where
  "is_digit c \<longleftrightarrow> 48 \<le> (of_char c :: nat) \<and> (of_char c :: nat) \<le> 57"

definition py_strip :: "string \<Rightarrow> string" where
  "py_strip s = rev (dropWhile is_space (rev (dropWhile is_space s)))"

definition digits_value :: "string \<Rightarrow> nat" where
  "digits_value ds = foldl (\<lambda>acc c. 10 * acc + (of_char c - 48)) 0 ds"

definition unsigned_int :: "string \<Rightarrow> py_error + int" where
  "unsigned_int ds = (if ds \<noteq> [] \<and> list_all is_digit ds then Inr (int (digits_value ds)) else Inl ValueError)"

definition py_int :: "string \<Rightarrow> py_error + int" where
  "py_int s =
     (case py_strip s of
        c # ds \<Rightarrow>
          if c = CHR ''-'' then (case unsigned_int ds of Inl e \<Rightarrow> Inl e | Inr n \<Rightarrow> Inr (- n))
          else if c = CHR ''+'' then unsigned_int ds
          else unsigned_int (c # ds)
      | [] \<Rightarrow> Inl ValueError)"

text \<open>
  The record that \<open>parse_node\<close> loads, restricted to the fields that do not come
  straight from an XPath query or from the absent JATS extractor, and the part of
  \<open>parse_node\<close> after the gate (source lines 220-290). \<open>response.meta\<close> is a dictionary.
\<close>

record hep_record =
  related_article_doi_requested :: bool
  report_numbers :: "(string \<times> string option) list"
  date_published :: string
  journal_year :: int
  copyright_material :: string
  collections :: "string list"
  original_doctype :: pyval
  doctype :: string
  local_files :: "(string \<times> string) list"

definition local_file :: "(string \<rightharpoonup> string) \<Rightarrow> string \<Rightarrow> string \<Rightarrow> (string \<times> string) list" where
  "local_file meta key filetype = (case meta key of None \<Rightarrow> [] | Some path \<Rightarrow> [(filetype, path)])"

definition build_record :: "(string \<rightharpoonup> string) \<Rightarrow> article_document \<Rightarrow> pyval \<Rightarrow> py_error + hep_record" where
  "build_record meta node article_type =
     (let related = (article_type \<in> {PyStr ''correction'', PyStr ''addendum''});
          arxiv = get_arxiv node;
          published_date = get_published_date node
      in case py_int (py_slice_to published_date 4) of
           Inl e \<Rightarrow> Inl e
         | Inr year \<Rightarrow>
             (case mapping_get article_type of
                Inl e \<Rightarrow> Inl e
              | Inr dt \<Rightarrow>
                  Inr \<lparr> related_article_doi_requested = related,
                        report_numbers = [(''arXiv'', arxiv)],
                        date_published = published_date,
                        journal_year = year,
                        copyright_material = ''Article'',
                        collections = [''Progress of Theoretical and Experimental Physics''],
                        original_doctype = article_type,
                        doctype = dt,
                        local_files = local_file meta ''xml_url'' ''xml''
                                      @ local_file meta ''pdf_url'' ''pdf''
                                      @ local_file meta ''pdfa_url'' ''pdf/a'' \<rparr>))"

text \<open>\<open>parse_node\<close> (source lines 211-290): \<open>None\<close> for a filtered document, else the record.\<close>

definition parse_node :: "(string \<rightharpoonup> string) \<Rightarrow> article_document \<Rightarrow> py_error + hep_record option" where
  "parse_node meta node =
     (case py_lower (xpath_article_type_extract node) of
        Inl e \<Rightarrow> Inl e
      | Inr article_type \<Rightarrow>
          (case article_type_filtered article_type of
             Inl e \<Rightarrow> Inl e
           | Inr True \<Rightarrow> Inr None
           | Inr False \<Rightarrow>
               (case build_record meta node article_type of
                  Inl e \<Rightarrow> Inl e
                | Inr record \<Rightarrow> Inr (Some record))))"

section \<open>Properties of \<open>unzip_files\<close>\<close>

text \<open>The paths \<open>unzip_files\<close> is to report: every member whose name ends with the suffix.\<close>

definition matching_paths :: "string \<Rightarrow> string \<Rightarrow> string list \<Rightarrow> string list" where
  "matching_paths target_folder ty names =
     map (\<lambda>n. os_path_join target_folder [n]) (filter (\<lambda>n. endswith n ty) names)"


lemma makedirs_apply: "makedirs ds fs p = (if p \<in> set ds then Some Directory else fs p)"
  by (induction ds arbitrary: fs) auto

text \<open>What a successful \<open>extract\<close> leaves on disk, and how it can fail.\<close>

lemma zip_extract_result:
  assumes "zip_extract z n t fs = Inr fs'"
  shows "\<exists>v. fs' = (makedirs (parent_dirs (extract_path t n)) fs)(extract_path t n \<mapsto> v)
           \<and> v \<noteq> Zip y
           \<and> \<not> list_ex (is_regular fs) (parent_dirs (extract_path t n))"
  using assms
  by (auto simp: zip_extract_def Let_def split: option.splits if_splits)

lemma zip_extract_keeps_archives:
  assumes "zip_extract z n t fs = Inr fs'" "fs' p = Some (Zip y)"
  shows "fs p = Some (Zip y)"
proof -
  from zip_extract_result[OF assms(1), of y] obtain v where
    fs': "fs' = (makedirs (parent_dirs (extract_path t n)) fs)(extract_path t n \<mapsto> v)"
    and v: "v \<noteq> Zip y" by blast
  from assms(2) fs' v have "p \<noteq> extract_path t n" by auto
  with assms(2) fs' show ?thesis by (simp add: makedirs_apply split: if_splits)
qed


lemma zip_extract_new_path:
  assumes "zip_extract z n t fs = Inr fs'" "fs (extract_path t n) = None"
  shows "fs \<subseteq>\<^sub>m fs' \<and> fs' (extract_path t n) \<noteq> None"
proof -
  let ?d = "extract_path t n"
  from zip_extract_result[OF assms(1), of "[]"] obtain v where
    fs': "fs' = (makedirs (parent_dirs ?d) fs)(?d \<mapsto> v)"
    and reg: "\<not> list_ex (is_regular fs) (parent_dirs ?d)" by blast
  have "fs p = fs' p" if p: "p \<in> dom fs" for p
  proof -
    from p assms(2) have ne: "p \<noteq> ?d" by auto
    show ?thesis
    proof (cases "p \<in> set (parent_dirs ?d)")
      case True
      with reg have "\<not> is_regular fs p" by (auto simp: list_ex_iff)
      with p have "fs p = Some Directory"
        by (auto simp: is_regular_def split: option.splits disk_file.splits)
      with True ne fs' show ?thesis by (simp add: makedirs_apply)
    next
      case False
      with ne fs' show ?thesis by (simp add: makedirs_apply)
    qed
  qed
  then have "fs \<subseteq>\<^sub>m fs'" by (simp add: map_le_def)
  moreover from fs' have "fs' ?d \<noteq> None" by simp
  ultimately show ?thesis ..
qed

text \<open>The loop: the list it returns, its errors, and the archives it leaves on disk.\<close>

lemma unzip_loop_list:
  "unzip_loop z t ty names fs acc = Inr (fs', xs) \<Longrightarrow> xs = acc @ matching_paths t ty names"
proof (induction names arbitrary: fs acc)
  case Nil
  then show ?case by (simp add: matching_paths_def)
next
  case (Cons n names)
  show ?case
  proof (cases "endswith n ty")
    case False
    with Cons.prems have "unzip_loop z t ty names fs acc = Inr (fs', xs)" by simp
    from Cons.IH[OF this] False show ?thesis by (simp add: matching_paths_def)
  next
    case True
    let ?p = "os_path_join t [n]"
    from Cons.prems True obtain fs1 where "unzip_loop z t ty names fs1 (acc @ [?p]) = Inr (fs', xs)"
      by (auto simp: Let_def split: if_splits sum.splits)
    from Cons.IH[OF this] True show ?thesis by (simp add: matching_paths_def)
  qed
qed

lemma unzip_loop_skip:
  assumes "\<forall>p \<in> set (matching_paths t ty names). fs p \<noteq> None"
  shows "unzip_loop z t ty names fs acc = Inr (fs, acc @ matching_paths t ty names)"
  using assms
  by (induction names arbitrary: acc) (auto simp: matching_paths_def os_path_exists_def)


lemma unzip_loop_keeps_archives:
  assumes "unzip_loop z t ty names fs acc = Inr (fs', xs)" "fs' p = Some (Zip y)"
  shows "fs p = Some (Zip y)"
  using assms
proof (induction names arbitrary: fs acc)
  case Nil
  then show ?case by simp
next
  case (Cons n names)
  from Cons.prems(1) consider
    (skip) acc1 where "unzip_loop z t ty names fs acc1 = Inr (fs', xs)"
  | (extracted) fs1 acc1 where "zip_extract z n t fs = Inr fs1" "unzip_loop z t ty names fs1 acc1 = Inr (fs', xs)"
    by (auto simp: Let_def split: if_splits sum.splits)
  then show ?case
  proof cases
    case skip
    from Cons.IH[OF this Cons.prems(2)] show ?thesis .
  next
    case extracted
    from Cons.IH[OF extracted(2) Cons.prems(2)] have "fs1 p = Some (Zip y)" .
    with extracted(1) show ?thesis by (rule zip_extract_keeps_archives)
  qed
qed

lemma unzip_loop_written_where_tested:
  assumes "\<forall>n \<in> set names. endswith n ty \<longrightarrow> extract_path t n = os_path_join t [n]"
    and "unzip_loop z t ty names fs acc = Inr (fs', xs)"
  shows "fs \<subseteq>\<^sub>m fs' \<and> (\<forall>p \<in> set (matching_paths t ty names). fs' p \<noteq> None)"
  using assms
proof (induction names arbitrary: fs acc)
  case Nil
  then show ?case by (simp add: matching_paths_def)
next
  case (Cons n names)
  then have H: "\<forall>n \<in> set names. endswith n ty \<longrightarrow> extract_path t n = os_path_join t [n]" by simp
  show ?case
  proof (cases "endswith n ty")
    case False
    with Cons.prems(2) have "unzip_loop z t ty names fs acc = Inr (fs', xs)" by simp
    from Cons.IH[OF H this] False show ?thesis by (simp add: matching_paths_def)
  next
    case match: True
    let ?p = "os_path_join t [n]"
    from match Cons.prems(1) have d: "extract_path t n = ?p" by simp
    show ?thesis
    proof (cases "fs ?p")
      case (Some f)
      with match Cons.prems(2) have "unzip_loop z t ty names fs (acc @ [?p]) = Inr (fs', xs)"
        by (simp add: os_path_exists_def)
      from Cons.IH[OF H this] have le: "fs \<subseteq>\<^sub>m fs'"
        and ex: "\<forall>p \<in> set (matching_paths t ty names). fs' p \<noteq> None" by simp_all
      from le Some have "fs' ?p \<noteq> None" by (auto simp: map_le_def dom_def)
      with le ex match show ?thesis by (simp add: matching_paths_def)
    next
      case None
      with match Cons.prems(2) obtain fs1 where e: "zip_extract z n t fs = Inr fs1"
        and r: "unzip_loop z t ty names fs1 (acc @ [?p]) = Inr (fs', xs)"
        by (auto simp: Let_def os_path_exists_def split: sum.splits)
      from None d have "fs (extract_path t n) = None" by simp
      from zip_extract_new_path[OF e this] d have le1: "fs \<subseteq>\<^sub>m fs1" and p1: "fs1 ?p \<noteq> None" by simp_all
      from Cons.IH[OF H r] have le: "fs1 \<subseteq>\<^sub>m fs'"
        and ex: "\<forall>p \<in> set (matching_paths t ty names). fs' p \<noteq> None" by simp_all
      from le1 le have le': "fs \<subseteq>\<^sub>m fs'" by (rule map_le_trans)
      from le p1 have "fs' ?p \<noteq> None" by (auto simp: map_le_def dom_def)
      with le' ex match show ?thesis by (simp add: matching_paths_def)
    qed
  qed
qed

lemma ZipFile_Inr: "ZipFile fs filename = Inr z \<longleftrightarrow> fs filename = Some (Zip z)"
  by (auto simp: ZipFile_def split: option.splits disk_file.splits)

lemma unzip_files_keeps_archives:
  assumes "unzip_files filename t ty fs = Inr (fs', xs)" "fs' p = Some (Zip y)"
  shows "fs p = Some (Zip y)"
proof -
  from assms(1) obtain z where "unzip_loop z t ty (namelist z) fs [] = Inr (fs', xs)"
    by (auto simp: unzip_files_def split: sum.splits)
  from unzip_loop_keeps_archives[OF this assms(2)] show ?thesis .
qed



text \<open>
  Claim C4 as stated fails for a bundle with the three XML members \<open>/t/../a.xml\<close>,
  \<open>/t/a.xml\<close> and \<open>a.xml\<close>, unpacked into \<open>/t\<close>. The first two are written at
  \<open>/t/t/a.xml\<close>, which is not the path tested for either; the path tested for the
  first never exists, so it is extracted on every run. After the first unpacking the
  file \<open>/t/t/a.xml\<close> holds the data of the second member; the second unpacking of the
  same bundle replaces it by the data of the first.
\<close>

theorem unzip_files_second_unpack_counterexample:
  "(case unzip_files ''/b.zip'' ''/t'' ''.xml''
           [''/b.zip'' \<mapsto> Zip [(''/t/../a.xml'', ''X''), (''/t/a.xml'', ''Y''), (''a.xml'', ''Z'')]] of
      Inl e \<Rightarrow> False
    | Inr (fs1, xs) \<Rightarrow>
        fs1 ''/t/t/a.xml'' = Some (Blob ''Y'')
        \<and> \<not> os_path_exists fs1 (os_path_join ''/t'' [''/t/../a.xml''])
        \<and> (case unzip_files ''/b.zip'' ''/t'' ''.xml'' fs1 of
              Inl e \<Rightarrow> False
            | Inr (fs2, ys) \<Rightarrow> fs2 ''/t/t/a.xml'' = Some (Blob ''X'')))"
  by code_simp

text \<open>
  A plain path component: not empty, not \<open>.\<close> or \<open>..\<close>, and without a slash. For a target
  folder and a member name made of plain components, the member is written where it
  is tested.
\<close>

definition plain_component :: "string \<Rightarrow> bool" where
  "plain_component c \<longleftrightarrow> c \<noteq> [] \<and> c \<noteq> ''.'' \<and> c \<noteq> ''..'' \<and> CHR ''/'' \<notin> set c"

lemma split_char_no_sep: "sep \<notin> set w \<Longrightarrow> split_char sep w = [w]"
  by (induction w) auto

lemma split_char_append: "sep \<notin> set w \<Longrightarrow> split_char sep (w @ sep # rest) = w # split_char sep rest"
  by (induction w) auto

lemma split_char_join:
  assumes "cs \<noteq> []" "\<forall>c \<in> set cs. CHR ''/'' \<notin> set c"
  shows "split_char (CHR ''/'') (join_slash cs) = cs"
  using assms
proof (induction cs rule: join_slash.induct)
  case 1
  then show ?case by simp
next
  case (2 x)
  then show ?case by (simp add: split_char_no_sep)
next
  case (3 x y ys)
  then have "split_char (CHR ''/'') (join_slash (y # ys)) = y # ys" by simp
  moreover from 3 have "CHR ''/'' \<notin> set x" by simp
  ultimately show ?case by (simp add: split_char_append)
qed

lemma join_slash_append:
  "xs \<noteq> [] \<Longrightarrow> ys \<noteq> [] \<Longrightarrow> join_slash (xs @ ys) = join_slash xs @ ''/'' @ join_slash ys"
proof (induction xs rule: join_slash.induct)
  case 1
  then show ?case by simp
next
  case (2 x)
  then show ?case by (cases ys) simp_all
next
  case (3 x y zs)
  then show ?case by simp
qed

lemma normpath_loop_plain:
  "\<forall>c \<in> set cs. plain_component c \<Longrightarrow> normpath_loop i acc cs = acc @ cs"
  by (induction cs arbitrary: acc) (auto simp: plain_component_def)

lemma join_slash_plain_hd:
  assumes "cs \<noteq> []" "\<forall>c \<in> set cs. plain_component c"
  shows "join_slash cs \<noteq> [] \<and> hd (join_slash cs) \<noteq> CHR ''/'' \<and> last (join_slash cs) \<noteq> CHR ''/''"
  using assms
proof (induction cs rule: join_slash.induct)
  case 1
  then show ?case by simp
next
  case (2 x)
  then have "x \<noteq> []" "CHR ''/'' \<notin> set x" by (simp_all add: plain_component_def)
  then show ?case by (cases x) (auto dest: last_in_set)
next
  case (3 x y ys)
  then have x: "x \<noteq> []" "CHR ''/'' \<notin> set x" by (simp_all add: plain_component_def)
  from 3 have "join_slash (y # ys) \<noteq> [] \<and> last (join_slash (y # ys)) \<noteq> CHR ''/''" by simp
  with x show ?case by (cases x) auto
qed

lemma arcname_plain:
  assumes "cs \<noteq> []" "\<forall>c \<in> set cs. plain_component c"
  shows "arcname (join_slash cs) = join_slash cs"
proof -
  from assms have "split_char (CHR ''/'') (join_slash cs) = cs"
    by (intro split_char_join) (auto simp: plain_component_def)
  moreover from assms(2) have "filter (\<lambda>x. x \<noteq> [] \<and> x \<noteq> ''.'' \<and> x \<noteq> ''..'') cs = cs"
    by (auto simp: plain_component_def intro: filter_True)
  ultimately show ?thesis by (simp add: arcname_def)
qed

lemma normpath_plain:
  assumes "cs \<noteq> []" "\<forall>c \<in> set cs. plain_component c" "pre = [] \<or> pre = ''/''"
  shows "os_path_normpath (pre @ join_slash cs) = pre @ join_slash cs"
proof -
  from assms(1,2) have sp: "split_char (CHR ''/'') (join_slash cs) = cs"
    by (intro split_char_join) (auto simp: plain_component_def)
  from join_slash_plain_hd[OF assms(1,2)] obtain a as where j: "join_slash cs = a # as" "a \<noteq> CHR ''/''"
    by (cases "join_slash cs") auto
  from assms(3) show ?thesis
  proof
    assume "pre = []"
    with j sp show ?thesis
      using normpath_loop_plain[OF assms(2), of 0 "[]"]
      by (simp add: os_path_normpath_def startswith_def Let_def)
  next
    assume p: "pre = ''/''"
    have "split_char (CHR ''/'') (CHR ''/'' # join_slash cs) = [] # cs" using sp by simp
    with p j show ?thesis
      using normpath_loop_plain[OF assms(2), of 1 "[]"]
      by (simp add: os_path_normpath_def startswith_def Let_def)
  qed
qed

lemma extract_path_plain:
  assumes "cs \<noteq> []" "\<forall>c \<in> set cs. plain_component c"
    and "\<forall>c \<in> set tc. plain_component c" "pre = [] \<or> pre = ''/''"
  shows "extract_path (pre @ join_slash tc) (join_slash cs) = os_path_join (pre @ join_slash tc) [join_slash cs]"
proof -
  let ?n = "join_slash cs"
  let ?t = "pre @ join_slash tc"
  from join_slash_plain_hd[OF assms(1,2)] have n: "?n \<noteq> []" "hd ?n \<noteq> CHR ''/''" by simp_all
  then have ns: "\<not> startswith ?n ''/''" by (cases ?n) (auto simp: startswith_def)
  have j: "os_path_join ?t [?n] = pre @ join_slash (tc @ cs)"
  proof (cases "tc = []")
    case True
    with assms(4) ns show ?thesis
      by (auto simp: os_path_join_def join_step_def endswith_def)
  next
    case False
    from join_slash_plain_hd[OF False assms(3)] have "join_slash tc \<noteq> []" "last (join_slash tc) \<noteq> CHR ''/''"
      by simp_all
    then have "?t \<noteq> []" "last ?t \<noteq> CHR ''/''" by simp_all
    then have "\<not> endswith ?t ''/''"
      by (cases ?t rule: rev_cases) (auto simp: endswith_def)
    with \<open>?t \<noteq> []\<close> ns have "os_path_join ?t [?n] = ?t @ ''/'' @ ?n"
      by (simp add: os_path_join_def join_step_def)
    with False assms(1) show ?thesis by (simp add: join_slash_append)
  qed
  from assms(1,2,3) have "\<forall>c \<in> set (tc @ cs). plain_component c" "tc @ cs \<noteq> []" by auto
  then have "os_path_normpath (pre @ join_slash (tc @ cs)) = pre @ join_slash (tc @ cs)"
    using assms(4) by (intro normpath_plain) auto
  with j show ?thesis by (simp add: extract_path_def arcname_plain[OF assms(1,2)])
qed

text \<open>
  Claim C4, as amended: when every member ending with the suffix is written where it is
  tested (its extraction path is its computed absolute path, as \<open>extract_path_plain\<close>
  shows for member names and target folders made of plain components), a successful
  unpacking leaves everything that was already on disk as it was, and unpacking the
  same bundle once more on the resulting disk succeeds, changes nothing on disk and
  returns the same paths.
\<close>

theorem unzip_files_idempotent_when_written_where_tested:
  assumes "ZipFile fs filename = Inr z"
    and "\<forall>n \<in> set (namelist z). endswith n ty \<longrightarrow>
           extract_path target_folder n = os_path_join target_folder [n]"
    and "unzip_files filename target_folder ty fs = Inr (fs1, xs)"
  shows "fs \<subseteq>\<^sub>m fs1 \<and> unzip_files filename target_folder ty fs1 = Inr (fs1, xs)"
proof -
  from assms(1,3) have r: "unzip_loop z target_folder ty (namelist z) fs [] = Inr (fs1, xs)"
    by (simp add: unzip_files_def)
  from unzip_loop_list[OF r] have xs: "xs = matching_paths target_folder ty (namelist z)" by simp
  from unzip_loop_written_where_tested[OF assms(2) r]
  have le: "fs \<subseteq>\<^sub>m fs1"
    and ex: "\<forall>p \<in> set (matching_paths target_folder ty (namelist z)). fs1 p \<noteq> None" by simp_all
  from assms(1) have "fs filename = Some (Zip z)" by (simp add: ZipFile_Inr)
  with le have "fs1 filename = Some (Zip z)" by (auto simp: map_le_def dom_def)
  then have z1: "ZipFile fs1 filename = Inr z" by (simp add: ZipFile_Inr)
  from unzip_loop_skip[OF ex, of z "[]"] xs z1 le show ?thesis
    by (simp add: unzip_files_def)
qed

text \<open>
  The amended claim on a bundle with an XML member in a subfolder, unpacked on a disk
  that does not have it yet.
\<close>

theorem unzip_files_idempotent_when_written_where_tested_witness:
  "\<exists>fs1. unzip_files ''/d/b.zip'' ''/d/b'' ''.xml''
            [''/d'' \<mapsto> Directory, ''/d/b.zip'' \<mapsto> Zip [(''x/a.xml'', ''A''), (''c.pdf'', ''C'')]]
          = Inr (fs1, [''/d/b/x/a.xml''])
      \<and> fs1 ''/d/b/x/a.xml'' = Some (Blob ''A'')
      \<and> [''/d'' \<mapsto> Directory, ''/d/b.zip'' \<mapsto> Zip [(''x/a.xml'', ''A''), (''c.pdf'', ''C'')]] \<subseteq>\<^sub>m fs1
      \<and> unzip_files ''/d/b.zip'' ''/d/b'' ''.xml'' fs1 = Inr (fs1, [''/d/b/x/a.xml''])"
proof -
  let ?z = "[(''x/a.xml'', ''A''), (''c.pdf'', ''C'')]"
  let ?fs = "[''/d'' \<mapsto> Directory, ''/d/b.zip'' \<mapsto> Zip ?z]"
  have "case unzip_files ''/d/b.zip'' ''/d/b'' ''.xml'' ?fs of
          Inl e \<Rightarrow> False
        | Inr (fs1, xs) \<Rightarrow> xs = [''/d/b/x/a.xml''] \<and> fs1 ''/d/b/x/a.xml'' = Some (Blob ''A'')"
    by code_simp
  then obtain fs1 where h: "unzip_files ''/d/b.zip'' ''/d/b'' ''.xml'' ?fs = Inr (fs1, [''/d/b/x/a.xml''])"
    and f: "fs1 ''/d/b/x/a.xml'' = Some (Blob ''A'')"
    by (auto split: sum.splits)
  have z: "ZipFile ?fs ''/d/b.zip'' = Inr ?z" by (simp add: ZipFile_def)
  have "extract_path ''/d/b'' ''x/a.xml'' = os_path_join ''/d/b'' [''x/a.xml'']"
    using extract_path_plain[of "[''x'', ''a.xml'']" "[''d'', ''b'']" "''/''"]
    by (simp add: plain_component_def)
  then have w: "\<forall>n \<in> set (namelist ?z). endswith n ''.xml'' \<longrightarrow>
             extract_path ''/d/b'' n = os_path_join ''/d/b'' [n]"
    by (simp add: namelist_def endswith_def)
  from unzip_files_idempotent_when_written_where_tested[OF z w h] h f show ?thesis by blast
qed

section \<open>Properties of \<open>handle_package_ftp\<close>\<close>

lemma rfind_char_last: "c \<notin> set ys \<Longrightarrow> rfind_char (xs @ c # ys) c = int (length xs)"
proof -
  assume "c \<notin> set ys"
  then have "takeWhile (\<lambda>x. x \<noteq> c) (rev ys @ c # rev xs) = rev ys"
    by (subst takeWhile_append2) auto
  then show ?thesis by (simp add: rfind_char_def)
qed

lemma rfind_char_absent: "c \<notin> set s \<Longrightarrow> rfind_char s c = - 1"
  by (simp add: rfind_char_def)

lemma rfind_char_less: "rfind_char s c < int (length s)"
  by (simp add: rfind_char_def)

lemma rfind_char_append_absent: "c \<notin> set ys \<Longrightarrow> rfind_char (xs @ ys) c = rfind_char xs c"
proof (cases "c \<in> set xs")
  case False
  assume "c \<notin> set ys"
  with False show ?thesis by (simp add: rfind_char_def)
next
  case True
  assume ys: "c \<notin> set ys"
  from True obtain a b where xs: "xs = a @ c # b" "c \<notin> set b" by (auto dest: split_list_last)
  then have "rfind_char xs c = int (length a)" by (simp add: rfind_char_last)
  moreover from xs ys have "rfind_char (a @ c # (b @ ys)) c = int (length a)"
    by (intro rfind_char_last) simp
  ultimately show ?thesis using xs by simp
qed

lemma endswith_slash: "endswith p ''/'' \<longleftrightarrow> p \<noteq> [] \<and> last p = CHR ''/''"
proof (cases p rule: rev_cases)
  case Nil
  then show ?thesis by (simp add: endswith_def)
next
  case (snoc ys y)
  then show ?thesis by (auto simp: endswith_def)
qed

lemma startswith_slash: "startswith b ''/'' \<longleftrightarrow> b \<noteq> [] \<and> hd b = CHR ''/''"
  by (cases b) (auto simp: startswith_def)

lemma sep_index:
  assumes "pre = [] \<or> last pre = CHR ''/''" "CHR ''/'' \<notin> set rest"
  shows "rfind_char (pre @ rest) (CHR ''/'') = int (length pre) - 1"
proof (cases "pre = []")
  case True
  with assms show ?thesis by (simp add: rfind_char_absent)
next
  case False
  with assms(1) obtain q where q: "pre = q @ [CHR ''/'']"
    by (metis append_butlast_last_id)
  with assms(2) have "rfind_char (q @ CHR ''/'' # rest) (CHR ''/'') = int (length q)"
    by (intro rfind_char_last)
  with q show ?thesis by simp
qed

lemma splitext_no_ext:
  assumes "pre = [] \<or> last pre = CHR ''/''" "CHR ''/'' \<notin> set stem" "CHR ''.'' \<notin> set stem"
  shows "os_path_splitext (pre @ stem) = (pre @ stem, [])"
proof -
  have s: "rfind_char (pre @ stem) (CHR ''/'') = int (length pre) - 1"
    using assms(1,2) by (rule sep_index)
  have "rfind_char (pre @ stem) (CHR ''.'') = rfind_char pre (CHR ''.'')"
    using assms(3) by (rule rfind_char_append_absent)
  moreover have "rfind_char pre (CHR ''.'') < int (length pre)" by (rule rfind_char_less)
  ultimately have "\<not> rfind_char (pre @ stem) (CHR ''.'') > rfind_char (pre @ stem) (CHR ''/'')"
    using s by simp
  then show ?thesis by (simp add: os_path_splitext_def Let_def)
qed

lemma splitext_last_ext:
  assumes "pre = [] \<or> last pre = CHR ''/''" "CHR ''/'' \<notin> set stem" "CHR ''.'' \<notin> set stem"
    "stem \<noteq> []" "CHR ''/'' \<notin> set e1" "CHR ''/'' \<notin> set w" "CHR ''.'' \<notin> set w"
  shows "os_path_splitext (pre @ stem @ e1 @ CHR ''.'' # w) = (pre @ stem @ e1, CHR ''.'' # w)"
proof -
  let ?p = "pre @ stem @ e1 @ CHR ''.'' # w"
  have "rfind_char (pre @ (stem @ e1 @ CHR ''.'' # w)) (CHR ''/'') = int (length pre) - 1"
    using assms by (intro sep_index) auto
  then have s: "rfind_char ?p (CHR ''/'') = int (length pre) - 1" by simp
  have "rfind_char ((pre @ stem @ e1) @ CHR ''.'' # w) (CHR ''.'') = int (length (pre @ stem @ e1))"
    using assms(7) by (rule rfind_char_last)
  then have d: "rfind_char ?p (CHR ''.'') = int (length pre + length stem + length e1)" by simp
  have tk: "take (length pre + length stem + length e1) ?p = pre @ stem @ e1"
    and dr: "drop (length pre + length stem + length e1) ?p = CHR ''.'' # w"
    by simp_all
  have "drop (length pre) (pre @ stem @ e1) = stem @ e1" by simp
  moreover from assms(3,4) have "list_ex (\<lambda>c. c \<noteq> CHR ''.'') (stem @ e1)"
    by (cases stem) (auto simp: list_ex_iff)
  ultimately have ex: "list_ex (\<lambda>c. c \<noteq> CHR ''.'') (drop (length pre) (pre @ stem @ e1))" by simp
  show ?thesis
    unfolding os_path_splitext_def Let_def s d
    using tk dr ex by (simp add: nat_add_distrib)
qed

lemma strip_extensions_unfold:
  "os_path_splitext p = (r, e) \<Longrightarrow> strip_extensions p = (if e = [] then r else strip_extensions r)"
  by (subst strip_extensions.simps) simp

text \<open>
  Claim C6, as amended: the loop strips every extension of the file name, not only the
  outermost one. For a bundle path whose last component is a dot-free, non-empty first
  segment followed by any number of extensions, the target folder is the path up to and
  including that first segment.
\<close>

theorem strip_extensions_keeps_first_segment:
  assumes "pre = [] \<or> last pre = CHR ''/''"
    and "stem \<noteq> []" and "CHR ''.'' \<notin> set stem" and "CHR ''/'' \<notin> set stem"
    and "CHR ''/'' \<notin> set exts" and "exts = [] \<or> hd exts = CHR ''.''"
  shows "strip_extensions (pre @ stem @ exts) = pre @ stem"
  using assms(5,6)
proof (induction "length exts" arbitrary: exts rule: less_induct)
  case less
  show ?case
  proof (cases "exts = []")
    case True
    from splitext_no_ext[OF assms(1,4,3)] True show ?thesis
      by (simp add: strip_extensions_unfold)
  next
    case False
    with less.prems have "CHR ''.'' \<in> set exts" by (cases exts) auto
    then obtain e1 w where ew: "exts = e1 @ CHR ''.'' # w" "CHR ''.'' \<notin> set w"
      by (auto dest: split_list_last)
    with less.prems have sl: "CHR ''/'' \<notin> set e1" "CHR ''/'' \<notin> set w" by auto
    from ew less.prems False have h: "e1 = [] \<or> hd e1 = CHR ''.''" by (cases e1) auto
    from ew have len: "length e1 < length exts" by simp
    have "os_path_splitext (pre @ stem @ e1 @ CHR ''.'' # w) = (pre @ stem @ e1, CHR ''.'' # w)"
      using assms(1,4,3,2) sl ew(2) by (rule splitext_last_ext)
    then have "strip_extensions (pre @ stem @ exts) = strip_extensions (pre @ stem @ e1)"
      using ew by (simp add: strip_extensions_unfold)
    also have "\<dots> = pre @ stem" using len sl(1) h by (rule less.hyps)
    finally show ?thesis .
  qed
qed


lemma basename_split:
  assumes "CHR ''/'' \<notin> set base"
  shows "os_path_basename (dir @ CHR ''/'' # base) = base"
proof -
  from assms have "rfind_char (dir @ CHR ''/'' # base) (CHR ''/'') = int (length dir)"
    by (rule rfind_char_last)
  then show ?thesis by (simp add: os_path_basename_def nat_add_distrib)
qed

lemma dirname_split:
  assumes "CHR ''/'' \<notin> set base" "dir \<noteq> []" "last dir \<noteq> CHR ''/''"
  shows "os_path_dirname (dir @ CHR ''/'' # base) = dir"
proof -
  from assms(1) have r: "rfind_char (dir @ CHR ''/'' # base) (CHR ''/'') = int (length dir)"
    by (rule rfind_char_last)
  have tk: "take (nat (int (length dir) + 1)) (dir @ CHR ''/'' # base) = dir @ ''/''"
    by (simp add: nat_add_distrib)
  from assms(2,3) have "last dir \<in> set (dir @ ''/'')" by simp
  with assms(3) have ne: "dir @ ''/'' \<noteq> replicate (length (dir @ ''/'')) (CHR ''/'')"
    by (metis in_set_replicate)
  from assms(2,3) have "dropWhile (\<lambda>c. c = CHR ''/'') (rev dir) = rev dir"
    by (cases dir rule: rev_cases) auto
  then have rs: "rstrip_slash (dir @ ''/'') = dir" by (simp add: rstrip_slash_def)
  show ?thesis
    unfolding os_path_dirname_def Let_def using r tk ne rs by simp
qed

lemma join_two_plain:
  assumes "dir \<noteq> []" "last dir \<noteq> CHR ''/''" "CHR ''/'' \<notin> set name"
    and that: "sub = ''pdf'' \<or> sub = ''archival''"
  shows "os_path_join dir [sub, name @ ''.pdf''] = join_step dir sub @ ''/'' @ name @ ''.pdf''"
proof -
  from that have e: "\<not> endswith (join_step dir sub) ''/''" "join_step dir sub \<noteq> []"
    using assms by (auto simp: join_step_def endswith_slash startswith_slash)
  from assms(3) have "\<not> startswith (name @ ''.pdf'') ''/''"
    by (cases name) (auto simp: startswith_slash)
  with e show ?thesis by (simp add: os_path_join_def join_step_def[of "join_step dir sub"])
qed

lemma xml_task_paths:
  assumes "CHR ''/'' \<notin> set base" "dir \<noteq> []" "last dir \<noteq> CHR ''/''"
  shows "pdf_url (xml_task z (dir @ ''/'' @ base)) = dir @ ''/pdf/'' @ takeWhile (\<lambda>c. c \<noteq> CHR ''.'') base @ ''.pdf''"
    and "pdfa_url (xml_task z (dir @ ''/'' @ base)) = dir @ ''/archival/'' @ takeWhile (\<lambda>c. c \<noteq> CHR ''.'') base @ ''.pdf''"
proof -
  let ?n = "takeWhile (\<lambda>c. c \<noteq> CHR ''.'') base"
  from assms(1) have n: "CHR ''/'' \<notin> set ?n" by (auto dest: set_takeWhileD)
  from assms(2,3) have j: "join_step dir ''pdf'' = dir @ ''/pdf''" "join_step dir ''archival'' = dir @ ''/archival''"
    by (simp_all add: join_step_def endswith_slash startswith_slash)
  from join_two_plain[OF assms(2,3) n, of "''pdf''"] j
  have 1: "os_path_join dir [''pdf'', ?n @ ''.pdf''] = dir @ ''/pdf/'' @ ?n @ ''.pdf''" by simp
  from join_two_plain[OF assms(2,3) n, of "''archival''"] j
  have 2: "os_path_join dir [''archival'', ?n @ ''.pdf''] = dir @ ''/archival/'' @ ?n @ ''.pdf''" by simp
  from 1 show "pdf_url (xml_task z (dir @ ''/'' @ base)) = dir @ ''/pdf/'' @ ?n @ ''.pdf''"
    by (simp add: xml_task_def Let_def split_first_def basename_split[OF assms(1)] dirname_split[OF assms])
  from 2 show "pdfa_url (xml_task z (dir @ ''/'' @ base)) = dir @ ''/archival/'' @ ?n @ ''.pdf''"
    by (simp add: xml_task_def Let_def split_first_def basename_split[OF assms(1)] dirname_split[OF assms])
qed

lemma unzip_files_sound:
  assumes "unzip_files f t ty fs = Inr (fs', xs)"
  shows "\<exists>z. fs f = Some (Zip z) \<and> xs = matching_paths t ty (namelist z)"
proof -
  from assms obtain z where z: "ZipFile fs f = Inr z"
    and r: "unzip_loop z t ty (namelist z) fs [] = Inr (fs', xs)"
    by (auto simp: unzip_files_def split: sum.splits)
  from unzip_loop_list[OF r] z show ?thesis by (simp add: ZipFile_Inr)
qed

lemma pdf_step_keeps_archives:
  assumes "pdf_step zip_filepath t fs = Inr (t', fs')" "fs' p = Some (Zip y)"
  shows "fs p = Some (Zip y)"
  using assms
  by (auto simp: pdf_step_def Let_def split: if_splits sum.splits dest: unzip_files_keeps_archives)

lemma archival_step_keeps_archives:
  assumes "archival_step zip_filepath t fs = Inr (t', fs')" "fs' p = Some (Zip y)"
  shows "fs p = Some (Zip y)"
  using assms
  by (auto simp: archival_step_def Let_def split: if_splits sum.splits dest: unzip_files_keeps_archives)

lemma handle_package_ftp_tasks:
  assumes "handle_package_ftp zip_filepath fs = Inr (fs', tasks)"
  shows "\<forall>task \<in> set tasks. task = xml_task zip_filepath (xml_url task)"
    and "contains zip_filepath ''.xml'' \<Longrightarrow>
      \<exists>z target. fs zip_filepath = Some (Zip z) \<and> map xml_url tasks = matching_paths target ''.xml'' (namelist z)"
proof -
  from assms obtain t0 fs1 t fs2 where p: "pdf_step zip_filepath (strip_extensions zip_filepath) fs = Inr (t0, fs1)"
    and a: "archival_step zip_filepath t0 fs1 = Inr (t, fs2)"
    and x: "xml_step zip_filepath t fs2 = Inr (fs', tasks)"
    by (auto simp: handle_package_ftp_def split: sum.splits)
  have xu: "xml_url (xml_task zip_filepath p) = p" for p by (simp add: xml_task_def Let_def)
  from x show "\<forall>task \<in> set tasks. task = xml_task zip_filepath (xml_url task)"
    by (auto simp: xml_step_def xu split: if_splits sum.splits)
  assume c: "contains zip_filepath ''.xml''"
  with x obtain xs where u: "unzip_files zip_filepath t ''.xml'' fs2 = Inr (fs', xs)"
    and ts: "tasks = map (xml_task zip_filepath) xs"
    by (auto simp: xml_step_def split: sum.splits)
  from ts have m: "map xml_url tasks = xs" by (simp add: xu comp_def)
  from unzip_files_sound[OF u] obtain z where z2: "fs2 zip_filepath = Some (Zip z)"
    and xs: "xs = matching_paths t ''.xml'' (namelist z)" by blast
  from archival_step_keeps_archives[OF a z2] have "fs1 zip_filepath = Some (Zip z)" .
  from pdf_step_keeps_archives[OF p this] have "fs zip_filepath = Some (Zip z)" .
  with m xs show "\<exists>z target. fs zip_filepath = Some (Zip z) \<and> map xml_url tasks = matching_paths target ''.xml'' (namelist z)"
    by blast
qed

text \<open>
  Claim C8, as amended: when the bundle path contains \<open>.xml\<close>, one request is yielded
  for each archive member ending in \<open>.xml\<close>, in archive order; every request for an XML
  path \<open>dir/base\<close> carries the PDF paths \<open>dir/pdf/stem.pdf\<close> and
  \<open>dir/archival/stem.pdf\<close>, where \<open>stem\<close> is the part of \<open>base\<close> before its first dot
  (not \<open>base\<close> without its last extension). The paths are computed from the XML path
  alone, whatever is on disk.
\<close>

theorem handle_package_ftp_sibling_paths:
  assumes "handle_package_ftp zip_filepath fs = Inr (fs', tasks)"
  shows "(contains zip_filepath ''.xml'' \<longrightarrow>
           (\<exists>z target. fs zip_filepath = Some (Zip z) \<and>
              map xml_url tasks = map (\<lambda>n. os_path_join target [n]) (filter (\<lambda>n. endswith n ''.xml'') (namelist z))))
       \<and> (\<forall>task \<in> set tasks. \<forall>dir base.
            xml_url task = dir @ ''/'' @ base \<and> dir \<noteq> [] \<and> last dir \<noteq> CHR ''/'' \<and> CHR ''/'' \<notin> set base \<longrightarrow>
              pdf_url task = dir @ ''/pdf/'' @ takeWhile (\<lambda>c. c \<noteq> CHR ''.'') base @ ''.pdf'' \<and>
              pdfa_url task = dir @ ''/archival/'' @ takeWhile (\<lambda>c. c \<noteq> CHR ''.'') base @ ''.pdf'')"
proof (intro conjI impI ballI allI)
  assume "contains zip_filepath ''.xml''"
  with handle_package_ftp_tasks(2)[OF assms] show "\<exists>z target. fs zip_filepath = Some (Zip z) \<and>
      map xml_url tasks = map (\<lambda>n. os_path_join target [n]) (filter (\<lambda>n. endswith n ''.xml'') (namelist z))"
    by (simp add: matching_paths_def)
next
  fix task dir base
  assume t: "task \<in> set tasks"
    and h: "xml_url task = dir @ ''/'' @ base \<and> dir \<noteq> [] \<and> last dir \<noteq> CHR ''/'' \<and> CHR ''/'' \<notin> set base"
  from handle_package_ftp_tasks(1)[OF assms] t h
  have e: "task = xml_task zip_filepath (dir @ ''/'' @ base)" by metis
  from h have a: "CHR ''/'' \<notin> set base" "dir \<noteq> []" "last dir \<noteq> CHR ''/''" by simp_all
  show "pdf_url task = dir @ ''/pdf/'' @ takeWhile (\<lambda>c. c \<noteq> CHR ''.'') base @ ''.pdf''"
    unfolding e by (rule xml_task_paths(1)[OF a])
  show "pdfa_url task = dir @ ''/archival/'' @ takeWhile (\<lambda>c. c \<noteq> CHR ''.'') base @ ''.pdf''"
    unfolding e by (rule xml_task_paths(2)[OF a])
qed


text \<open>The amended claim at the bundle path \<open>/d/a.xml.zip\<close>.\<close>

theorem strip_extensions_keeps_first_segment_witness:
  "strip_extensions ''/d/a.xml.zip'' = ''/d/a''"
  using strip_extensions_keeps_first_segment[of "''/d/''" "''a''" "''.xml.zip''"] by simp

text \<open>
  Claim C6 as stated fails for \<open>/d/a.xml.zip\<close>: stripping the outermost extension
  leaves \<open>/d/a.xml\<close>, but the target folder is \<open>/d/a\<close>, and the XML member is
  unpacked below \<open>/d/a\<close>.
\<close>

theorem target_folder_outermost_extension_counterexample:
  "fst (os_path_splitext ''/d/a.xml.zip'') = ''/d/a.xml''
   \<and> strip_extensions ''/d/a.xml.zip'' = ''/d/a''
   \<and> (case handle_package_ftp ''/d/a.xml.zip'' [''/d/a.xml.zip'' \<mapsto> Zip [(''x.xml'', ''X'')]] of
        Inl e \<Rightarrow> [] | Inr (fs', tasks) \<Rightarrow> map xml_url tasks) = [''/d/a/x.xml'']"
  by code_simp

text \<open>
  Claim C8 as stated fails for the member \<open>a.b.xml\<close>: the XML basename without its
  extension is \<open>a.b\<close>, but both PDF paths are built from \<open>a\<close>.
\<close>

theorem sibling_paths_basename_counterexample:
  "(case handle_package_ftp ''/d/b.xml.zip'' [''/d/b.xml.zip'' \<mapsto> Zip [(''a.b.xml'', ''A'')]] of
      Inl e \<Rightarrow> [] | Inr (fs', tasks) \<Rightarrow> map (\<lambda>t. (xml_url t, pdf_url t, pdfa_url t)) tasks)
     = [(''/d/b/a.b.xml'', ''/d/b/pdf/a.pdf'', ''/d/b/archival/a.pdf'')]
   \<and> fst (os_path_splitext (os_path_basename ''/d/b/a.b.xml'')) = ''a.b''"
  by code_simp

text \<open>The amended claim C8 on the bundle \<open>/d/b.xml.zip\<close> with the member \<open>a.b.xml\<close>.\<close>

theorem handle_package_ftp_sibling_paths_witness:
  "\<exists>fs' task. handle_package_ftp ''/d/b.xml.zip'' [''/d/b.xml.zip'' \<mapsto> Zip [(''a.b.xml'', ''A'')]] = Inr (fs', [task])
      \<and> xml_url task = ''/d/b/a.b.xml''
      \<and> pdf_url task = ''/d/b/pdf/a.pdf'' \<and> pdfa_url task = ''/d/b/archival/a.pdf''"
proof -
  let ?fs = "[''/d/b.xml.zip'' \<mapsto> Zip [(''a.b.xml'', ''A'')]]"
  let ?task = "xml_task ''/d/b.xml.zip'' ''/d/b/a.b.xml''"
  have "case handle_package_ftp ''/d/b.xml.zip'' ?fs of
          Inl e \<Rightarrow> False
        | Inr (fs', tasks) \<Rightarrow> tasks = [?task]"
    by code_simp
  then obtain fs' where h: "handle_package_ftp ''/d/b.xml.zip'' ?fs = Inr (fs', [?task])"
    by (auto split: sum.splits)
  have u: "xml_url ?task = ''/d/b/a.b.xml''" by (simp add: xml_task_def Let_def)
  have "xml_url ?task = ''/d/b'' @ ''/'' @ ''a.b.xml'' \<and> ''/d/b'' \<noteq> [] \<and> last ''/d/b'' \<noteq> CHR ''/'' \<and> CHR ''/'' \<notin> set ''a.b.xml''"
    using u by simp
  with handle_package_ftp_sibling_paths[OF h, THEN conjunct2, rule_format, of ?task "''/d/b''" "''a.b.xml''"]
  have "pdf_url ?task = ''/d/b/pdf/a.pdf'' \<and> pdfa_url ?task = ''/d/b/archival/a.pdf''" by simp
  with h u show ?thesis by blast
qed

text \<open>
  Claim C5 at the bundle \<open>/data/2022-03-01_10:00:00_ptep_archival_2022_archival.zip\<close>,
  a download name as \<open>start_requests\<close> builds it: the target folder ends with
  \<open>_archival\<close>, and it is cut at the first occurrence of \<open>_archival\<close>, not at the
  trailing one, so the PDF lands in \<open>/data/2022-03-01_10:00:00_ptep/archival\<close> and not in
  \<open>/data/2022-03-01_10:00:00_ptep_archival_2022/archival\<close>.
\<close>

theorem archival_suffix_first_occurrence:
  "strip_extensions ''/data/2022-03-01_10:00:00_ptep_archival_2022_archival.zip''
     = ''/data/2022-03-01_10:00:00_ptep_archival_2022_archival''
   \<and> (case handle_package_ftp ''/data/2022-03-01_10:00:00_ptep_archival_2022_archival.zip''
          [''/data/2022-03-01_10:00:00_ptep_archival_2022_archival.zip'' \<mapsto> Zip [(''a.pdf'', ''A'')]] of
        Inl e \<Rightarrow> False
      | Inr (fs', tasks) \<Rightarrow>
          fs' ''/data/2022-03-01_10:00:00_ptep/archival/a.pdf'' = Some (Blob ''A'')
          \<and> fs' ''/data/2022-03-01_10:00:00_ptep_archival_2022/archival/a.pdf'' = None
          \<and> tasks = [])"
  by code_simp

section \<open>Properties of \<open>start_requests\<close>\<close>

lemma startswith_iff: "startswith s pre \<longleftrightarrow> (\<exists>post. s = pre @ post)"
proof
  assume "startswith s pre"
  then have "s = pre @ drop (length pre) s"
    by (metis append_take_drop_id startswith_def)
  then show "\<exists>post. s = pre @ post" ..
next
  assume "\<exists>post. s = pre @ post"
  then show "startswith s pre" by (auto simp: startswith_def)
qed

lemma contains_iff: "contains s sub \<longleftrightarrow> (\<exists>pre post. s = pre @ sub @ post)"
proof (induction s)
  case Nil
  then show ?case by auto
next
  case (Cons c cs)
  show ?case
  proof
    assume "contains (c # cs) sub"
    then consider "startswith (c # cs) sub" | "contains cs sub" by auto
    then show "\<exists>pre post. c # cs = pre @ sub @ post"
    proof cases
      case 1
      then obtain post where "c # cs = [] @ sub @ post" by (auto simp: startswith_iff)
      then show ?thesis by blast
    next
      case 2
      with Cons.IH obtain pre post where "cs = pre @ sub @ post" by blast
      then have "c # cs = (c # pre) @ sub @ post" by simp
      then show ?thesis by blast
    qed
  next
    assume "\<exists>pre post. c # cs = pre @ sub @ post"
    then obtain pre post where e: "c # cs = pre @ sub @ post" by blast
    show "contains (c # cs) sub"
    proof (cases pre)
      case Nil
      with e have "startswith (c # cs) sub" by (auto simp: startswith_iff)
      then show ?thesis by simp
    next
      case (Cons a pre')
      with e have "cs = pre' @ sub @ post" by simp
      with Cons.IH have "contains cs sub" by blast
      then show ?thesis by simp
    qed
  qed
qed

lemma visible_folders_filter:
  "visible_folders folders all_folders = all_folders @ filter (\<lambda>folder. \<not> startswith folder ''.'') folders"
  by (induction folders arbitrary: all_folders) auto

definition ftp_url :: "string \<Rightarrow> string \<Rightarrow> string" where
  "ftp_url host remote_file = ''ftp://'' @ host @ ''/'' @ remote_file"

lemma files_loop_requests:
  "map request_url (fst (files_loop self host ftp_params name new_files))
     = map (ftp_url host) (filter (\<lambda>f. contains f ''.zip'') new_files)
   \<and> (\<forall>r \<in> set (fst (files_loop self host ftp_params name new_files)).
         request_callback r = handle_package_ftp_callback)"
proof (induction new_files arbitrary: ftp_params)
  case Nil
  then show ?case by simp
next
  case (Cons remote_file new_files)
  show ?case
  proof (cases "contains remote_file ''.zip''")
    case False
    with Cons.IH[of ftp_params] show ?thesis by simp
  next
    case True
    let ?p = "ftp_params(''ftp_local_filename'' \<mapsto>
               os_path_join (self_target_folder self) [name @ ''_'' @ os_path_basename remote_file])"
    obtain rs ps where fl: "files_loop self host ?p name new_files = (rs, ps)"
      by (cases "files_loop self host ?p name new_files")
    have "map request_url rs = map (ftp_url host) (filter (\<lambda>f. contains f ''.zip'') new_files)
      \<and> (\<forall>r \<in> set rs. request_callback r = handle_package_ftp_callback)"
      using Cons.IH[of ?p] unfolding fl fst_conv .
    with True fl show ?thesis by (simp add: Let_def ftp_url_def)
  qed
qed

text \<open>
  The remote files reported as new, over the visible folders of the FTP folder, in the
  order in which \<open>start_requests\<close> reads them.
\<close>

definition listed_files :: "spider \<Rightarrow> ftp_remote \<Rightarrow> string \<Rightarrow> string \<Rightarrow> string \<Rightarrow> string list" where
  "listed_files self remote host user password =
     concat (map (\<lambda>folder. ftp_list_files remote (os_path_join (self_ftp_folder self) [folder])
                             (self_target_folder self) (host, user, password))
                 (ftp_list_folders remote (self_ftp_folder self) host user password))"

lemma folders_loop_requests:
  "map request_url (folders_loop self remote host ftp_params user password k folders)
     = map (ftp_url host) (filter (\<lambda>f. contains f ''.zip'')
         (concat (map (\<lambda>folder. ftp_list_files remote (os_path_join (self_ftp_folder self) [folder])
                             (self_target_folder self) (host, user, password)) folders)))
   \<and> (\<forall>r \<in> set (folders_loop self remote host ftp_params user password k folders).
         request_callback r = handle_package_ftp_callback)"
proof (induction folders arbitrary: ftp_params k)
  case Nil
  then show ?case by simp
next
  case (Cons folder folders)
  let ?files = "ftp_list_files remote (os_path_join (self_ftp_folder self) [folder]) (self_target_folder self) (host, user, password)"
  obtain rs ps where fl: "files_loop self host ftp_params (generate_download_name remote k) ?files = (rs, ps)"
    by (cases "files_loop self host ftp_params (generate_download_name remote k) ?files")
  from files_loop_requests[of self host ftp_params "generate_download_name remote k" ?files] fl
  have rs: "map request_url rs = map (ftp_url host) (filter (\<lambda>f. contains f ''.zip'') ?files)"
    "\<forall>r \<in> set rs. request_callback r = handle_package_ftp_callback" by simp_all
  from Cons.IH[of ps "Suc k"] rs fl show ?case by (auto simp: Let_def)
qed

text \<open>
  Claim C10: in remote-discovery mode (no package path given, and the connection
  parameters hold a user and a password), \<open>start_requests\<close> yields, in listing order,
  exactly one download request, handled by \<open>handle_package_ftp\<close>, for each listed remote
  file that has \<open>.zip\<close> as a substring anywhere in its path, and none for the others.
\<close>

theorem start_requests_zip_substring:
  assumes "\<not> truthy (self_package_path self)"
    and "ftp_connection_info remote (self_ftp_host self) (self_ftp_netrc self) = (host, ftp_params)"
    and "ftp_params ''ftp_user'' = Some user"
    and "ftp_params ''ftp_password'' = Some password"
  shows "\<exists>requests. start_requests self remote = Inr requests
           \<and> map request_url requests
               = map (\<lambda>f. ''ftp://'' @ host @ ''/'' @ f)
                   (filter (\<lambda>f. \<exists>pre post. f = pre @ ''.zip'' @ post)
                      (listed_files self remote host user password))
           \<and> (\<forall>r \<in> set requests. request_callback r = handle_package_ftp_callback)"
proof -
  from assms(1) have "start_requests self remote = remote_discovery self remote"
    by (auto simp: start_requests_def truthy_def split: option.splits)
  with assms(2-4) have s: "start_requests self remote
      = Inr (folders_loop self remote host ftp_params user password 0
               (ftp_list_folders remote (self_ftp_folder self) host user password))"
    by (simp add: remote_discovery_def dict_item_def)
  have f: "(\<lambda>f. contains f ''.zip'') = (\<lambda>f. \<exists>pre post. f = pre @ ''.zip'' @ post)"
    by (rule ext) (rule contains_iff)
  have u: "ftp_url host = (\<lambda>f. ''ftp://'' @ host @ ''/'' @ f)"
    by (rule ext) (simp add: ftp_url_def)
  from folders_loop_requests[of self remote host ftp_params user password 0
      "ftp_list_folders remote (self_ftp_folder self) host user password"]
  show ?thesis unfolding s listed_files_def f u by blast
qed

text \<open>
  The claim on a listing with one hidden folder, one visible folder and two new files:
  \<open>x.zip.bak\<close> is requested, \<open>y.xml\<close> is not.
\<close>

theorem start_requests_zip_substring_witness:
  "\<exists>requests.
     start_requests
       \<lparr> self_package_path = None, self_ftp_folder = ''hooks'', self_ftp_host = Some ''h'', self_ftp_netrc = None,
         self_target_folder = ''/dl'' \<rparr>
       \<lparr> ftp_connection_info = (\<lambda>h n. (''h'', [''ftp_user'' \<mapsto> ''u'', ''ftp_password'' \<mapsto> ''p''])),
         curdir = ''.'', listdir = (\<lambda>s p. [''.hidden'', ''f1'']),
         ftp_list_files = (\<lambda>f t s. [''hooks/f1/x.zip.bak'', ''hooks/f1/y.xml'']),
         generate_download_name = (\<lambda>k. ''T'') \<rparr> = Inr requests
     \<and> map request_url requests = [''ftp://h/hooks/f1/x.zip.bak'']"
  using start_requests_zip_substring[of
      "\<lparr> self_package_path = None, self_ftp_folder = ''hooks'', self_ftp_host = Some ''h'', self_ftp_netrc = None,
         self_target_folder = ''/dl'' \<rparr>"
      "\<lparr> ftp_connection_info = (\<lambda>h n. (''h'', [''ftp_user'' \<mapsto> ''u'', ''ftp_password'' \<mapsto> ''p''])),
         curdir = ''.'', listdir = (\<lambda>s p. [''.hidden'', ''f1'']),
         ftp_list_files = (\<lambda>f t s. [''hooks/f1/x.zip.bak'', ''hooks/f1/y.xml'']),
         generate_download_name = (\<lambda>k. ''T'') \<rparr>"
      "''h''" "[''ftp_user'' \<mapsto> ''u'', ''ftp_password'' \<mapsto> ''p'']" "''u''" "''p''",
      unfolded contains_iff[symmetric]]
  by (simp add: truthy_def listed_files_def ftp_list_folders_def startswith_def)
    (elim exE conjE, intro exI conjI, assumption+)

section \<open>Properties of \<open>get_arxiv\<close> and \<open>parse_node\<close>\<close>

lemma get_arxiv_loop_None: "get_arxiv_loop xs = None \<longleftrightarrow> (\<forall>x \<in> set xs. x = [])"
  by (induction xs) auto

lemma get_arxiv_loop_Some:
  "get_arxiv_loop xs = Some ar \<longleftrightarrow> (\<exists>pre post. xs = pre @ ar # post \<and> ar \<noteq> [] \<and> (\<forall>x \<in> set pre. x = []))"
proof (induction xs)
  case Nil
  then show ?case by simp
next
  case (Cons x xs)
  show ?case
  proof (cases "x = []")
    case False
    have "(\<exists>pre post. x # xs = pre @ ar # post \<and> ar \<noteq> [] \<and> (\<forall>y \<in> set pre. y = [])) \<longleftrightarrow> x = ar"
    proof
      assume "\<exists>pre post. x # xs = pre @ ar # post \<and> ar \<noteq> [] \<and> (\<forall>y \<in> set pre. y = [])"
      then obtain pre post where e: "x # xs = pre @ ar # post" and p: "\<forall>y \<in> set pre. y = []" by blast
      with False show "x = ar" by (cases pre) auto
    next
      assume "x = ar"
      with False have "x # xs = [] @ ar # xs \<and> ar \<noteq> [] \<and> (\<forall>y \<in> set []. y = [])" by simp
      then show "\<exists>pre post. x # xs = pre @ ar # post \<and> ar \<noteq> [] \<and> (\<forall>y \<in> set pre. y = [])" by blast
    qed
    with False show ?thesis by auto
  next
    case True
    have "(\<exists>pre post. x # xs = pre @ ar # post \<and> ar \<noteq> [] \<and> (\<forall>y \<in> set pre. y = []))
      \<longleftrightarrow> (\<exists>pre post. xs = pre @ ar # post \<and> ar \<noteq> [] \<and> (\<forall>y \<in> set pre. y = []))"
    proof
      assume "\<exists>pre post. x # xs = pre @ ar # post \<and> ar \<noteq> [] \<and> (\<forall>y \<in> set pre. y = [])"
      then obtain pre post where e: "x # xs = pre @ ar # post" and a: "ar \<noteq> []"
        and p: "\<forall>y \<in> set pre. y = []" by blast
      from e a True obtain pre' where "pre = x # pre'" by (cases pre) auto
      with e p a have "xs = pre' @ ar # post \<and> ar \<noteq> [] \<and> (\<forall>y \<in> set pre'. y = [])" by simp
      then show "\<exists>pre post. xs = pre @ ar # post \<and> ar \<noteq> [] \<and> (\<forall>y \<in> set pre. y = [])" by blast
    next
      assume "\<exists>pre post. xs = pre @ ar # post \<and> ar \<noteq> [] \<and> (\<forall>y \<in> set pre. y = [])"
      then obtain pre post where "xs = pre @ ar # post" "ar \<noteq> []" "\<forall>y \<in> set pre. y = []" by blast
      with True have "x # xs = (x # pre) @ ar # post \<and> ar \<noteq> [] \<and> (\<forall>y \<in> set (x # pre). y = [])" by simp
      then show "\<exists>pre post. x # xs = pre @ ar # post \<and> ar \<noteq> [] \<and> (\<forall>y \<in> set pre. y = [])" by blast
    qed
    with True Cons.IH show ?thesis by simp
  qed
qed

text \<open>
  Claim C7: \<open>get_arxiv\<close> returns the first non-empty text, in document order, among
  the text nodes of the \<open>article-id\<close> elements whose \<open>pub-id-type\<close> is \<open>arxiv\<close>, and
  returns \<open>None\<close> exactly when there is no such non-empty text.
\<close>

theorem get_arxiv_first_nonempty:
  "(get_arxiv node = None \<longleftrightarrow> (\<forall>ar \<in> set (xpath_arxiv_text node). ar = []))
   \<and> (get_arxiv node = Some ar \<longleftrightarrow>
        (\<exists>pre post. xpath_arxiv_text node = pre @ ar # post \<and> ar \<noteq> [] \<and> (\<forall>x \<in> set pre. x = [])))"
  by (simp add: get_arxiv_def get_arxiv_loop_None get_arxiv_loop_Some)

theorem get_arxiv_first_nonempty_witness:
  "get_arxiv \<lparr> article_type_attr = None,
        article_ids = [\<lparr> pub_id_type = Some ''doi'', text_nodes = [''10.1093/ptep/ptac032''] \<rparr>,
                       \<lparr> pub_id_type = Some ''arxiv'', text_nodes = [] \<rparr>,
                       \<lparr> pub_id_type = Some ''arxiv'', text_nodes = [''2201.00001''] \<rparr>,
                       \<lparr> pub_id_type = Some ''arxiv'', text_nodes = [''2201.00002''] \<rparr>],
        get_published_date = ''2022-03-01'' \<rparr> = Some ''2201.00001''
   \<and> get_arxiv \<lparr> article_type_attr = None,
        article_ids = [\<lparr> pub_id_type = Some ''doi'', text_nodes = [''10.1093/ptep/ptac032''] \<rparr>],
        get_published_date = ''2022-03-01'' \<rparr> = None"
proof -
  let ?n1 = "\<lparr> article_type_attr = None,
        article_ids = [\<lparr> pub_id_type = Some ''doi'', text_nodes = [''10.1093/ptep/ptac032''] \<rparr>,
                       \<lparr> pub_id_type = Some ''arxiv'', text_nodes = [] \<rparr>,
                       \<lparr> pub_id_type = Some ''arxiv'', text_nodes = [''2201.00001''] \<rparr>,
                       \<lparr> pub_id_type = Some ''arxiv'', text_nodes = [''2201.00002''] \<rparr>],
        get_published_date = ''2022-03-01'' \<rparr>"
  let ?n2 = "\<lparr> article_type_attr = None,
        article_ids = [\<lparr> pub_id_type = Some ''doi'', text_nodes = [''10.1093/ptep/ptac032''] \<rparr>],
        get_published_date = ''2022-03-01'' \<rparr>"
  have "xpath_arxiv_text ?n1 = [] @ ''2201.00001'' # [''2201.00002''] \<and> ''2201.00001'' \<noteq> [] \<and> (\<forall>x \<in> set []. x = ([]::string))"
    by (simp add: xpath_arxiv_text_def)
  then have "\<exists>pre post. xpath_arxiv_text ?n1 = pre @ ''2201.00001'' # post \<and> ''2201.00001'' \<noteq> [] \<and> (\<forall>x \<in> set pre. x = [])"
    by blast
  with get_arxiv_first_nonempty[of ?n1 "''2201.00001''"] have 1: "get_arxiv ?n1 = Some ''2201.00001''" by blast
  have "\<forall>ar \<in> set (xpath_arxiv_text ?n2). ar = []" by (simp add: xpath_arxiv_text_def)
  with get_arxiv_first_nonempty[of ?n2] have 2: "get_arxiv ?n2 = None" by blast
  from 1 2 show ?thesis by simp
qed

lemma lower_of_extract: "py_lower (xpath_article_type_extract node) = Inl AttributeError"
  by (simp add: py_lower_def xpath_article_type_extract_def)

lemma parse_node_raises: "parse_node meta node = Inl AttributeError"
  by (simp add: parse_node_def lower_of_extract)

text \<open>
  Whatever value \<open>lower()\<close> is applied to, the gate lets nothing through: \<open>lower()\<close>
  succeeds on strings only, and the first character of a string is never one of the
  allowed article types.
\<close>

lemma lowered_type_never_passes:
  assumes "py_lower x = Inr article_type"
  shows "article_type_filtered article_type = Inr True \<or> article_type_filtered article_type = Inl IndexError"
proof -
  from assms obtain s where a: "article_type = PyStr (map lower_char s)"
    by (auto simp: py_lower_def split: pyval.splits)
  show ?thesis
  proof (cases s)
    case Nil
    with a show ?thesis by (simp add: article_type_filtered_def py_first_def)
  next
    case (Cons c cs)
    have "[lower_char c] \<notin> set allowed_article_types" by (simp add: allowed_article_types_def)
    with a Cons show ?thesis by (simp add: article_type_filtered_def py_first_def)
  qed
qed

text \<open>Every allowed article type has an entry in the doctype table, and none is \<open>unknown\<close>.\<close>

lemma allowed_types_are_mapped:
  "\<forall>t \<in> set allowed_article_types.
     \<exists>d. map_of article_type_mapping t = Some d \<and> d \<noteq> default_article_type
         \<and> d \<in> {''article'', ''corrigendum'', ''addendum'', ''other''}"
  by (simp add: allowed_article_types_def article_type_mapping_def default_article_type_def)

text \<open>
  Claim C1 at a document without an \<open>article-type\<close> attribute and at a document of the
  disallowed type \<open>abstract\<close>: \<open>parse_node\<close> does not return \<open>None\<close>; it raises
  \<open>AttributeError\<close>, because \<open>lower()\<close> is called on the list that \<open>extract()\<close> returns.
\<close>

theorem parse_node_filter_raises:
  "parse_node Map.empty \<lparr> article_type_attr = None, article_ids = [], get_published_date = ''2022-03-01'' \<rparr>
     = Inl AttributeError
   \<and> parse_node Map.empty \<lparr> article_type_attr = Some ''abstract'', article_ids = [], get_published_date = ''2022-03-01'' \<rparr>
     = Inl AttributeError"
  by (simp add: parse_node_def py_lower_def xpath_article_type_extract_def)

text \<open>
  Claim C2 at a document of the allowed type \<open>research-article\<close>: no record is emitted,
  \<open>parse_node\<close> raises \<open>AttributeError\<close> before the gate; and the part after the gate,
  given the extracted list, raises \<open>TypeError\<close> at the doctype lookup, since the list
  itself, not its first element, is looked up in the table.
\<close>

theorem parse_node_allowed_type_raises:
  "parse_node Map.empty \<lparr> article_type_attr = Some ''research-article'', article_ids = [], get_published_date = ''2022-03-01'' \<rparr>
     = Inl AttributeError
   \<and> article_type_filtered (PyList [''research-article'']) = Inr False
   \<and> build_record Map.empty \<lparr> article_type_attr = Some ''research-article'', article_ids = [], get_published_date = ''2022-03-01'' \<rparr>
        (PyList [''research-article'']) = Inl TypeError"
  by code_simp


end
